theory Spec2Isabelle
  imports Complex_Main "HOL-Library.AList" "HOL-Library.Word"
begin

unbundle bit_operations_syntax

section \<open>Values exchanged between retrieval, fusion and the API\<close>

text \<open>
  Python values of type \<open>Any\<close> that travel as document metadata.  Scores are Python
  floats; they are modelled as exact rationals, so every statement about scores below is a
  statement about the arithmetic the code writes down, not about IEEE rounding.
\<close>

datatype json =
    JNull
  | JBool bool
  | JNum rat
  | JStr string
  | JArr "json list"
  | JObj "(string \<times> json) list"

datatype py_error =
    ZeroDivisionError
  | OverflowError
  | KeyError string
  | RuntimeError string
  | ValueError string
  | TimeoutError
  | CircuitBreakerException string
  | ProviderError string

text \<open>
  A retrieval hit is the dict built by \<open>search_dense\<close> / \<open>search_sparse\<close> (and by the
  tests).  \<open>h_document_id = None\<close> stands for a missing key or the value \<open>None\<close>
  (\<open>result.get("document_id")\<close> cannot tell them apart); \<open>h_content = None\<close> and
  \<open>h_metadata = None\<close> stand for a missing key, for which \<open>result.get\<close> supplies the
  default.
\<close>

record hit =
  h_document_id :: "string option"
  h_content :: "string option"
  h_metadata :: "json option"
  h_score :: rat

text \<open>The dict stored in \<open>doc_data\<close> at the first sighting of a document.\<close>

record doc_entry =
  d_document_id :: string
  d_content :: string
  d_metadata :: json

text \<open>An element of the fused list: the \<open>doc_data\<close> entry with its \<open>"score"\<close>.\<close>

record ranked_hit =
  document_id :: string
  content :: string
  metadata :: json
  score :: rat

section \<open>Reciprocal Rank Fusion (\<open>app/utils/rrf.py\<close>)\<close>

text \<open>
  The two dicts of \<open>reciprocal_rank_fusion\<close>.  Python dicts iterate in insertion order and
  keep a key's position when its value is overwritten; an association list updated with
  \<open>AList.update\<close> (overwrite in place, else append) has exactly this behaviour.
\<close>

record rrf_state =
  doc_scores :: "(string \<times> rat) list"
  doc_data :: "(string \<times> doc_entry) list"

definition rrf_init :: rrf_state where
  "rrf_init = \<lparr>doc_scores = [], doc_data = []\<rparr>"

text \<open>Lines 36--45: accumulate one contribution for \<open>doc_id\<close>.\<close>

definition accumulate :: "string \<Rightarrow> rat \<Rightarrow> hit \<Rightarrow> rrf_state \<Rightarrow> rrf_state" where
  "accumulate doc_id rrf_score result st =
     (case map_of (doc_scores st) doc_id of
        Some s \<Rightarrow> st\<lparr>doc_scores := AList.update doc_id (s + rrf_score) (doc_scores st)\<rparr>
      | None \<Rightarrow>
          st\<lparr>doc_scores := AList.update doc_id rrf_score (doc_scores st),
             doc_data := AList.update doc_id
               \<lparr>d_document_id = doc_id,
                d_content = (case h_content result of None \<Rightarrow> [] | Some c \<Rightarrow> c),
                d_metadata = (case h_metadata result of None \<Rightarrow> JObj [] | Some m \<Rightarrow> m)\<rparr>
               (doc_data st)\<rparr>)"

text \<open>
  Lines 27--45: the inner loop \<open>for rank, result in enumerate(results, start=1)\<close>, with the
  current rank as an argument.  \<open>not doc_id\<close> holds for \<open>None\<close> and for the empty string;
  \<open>1.0 / (k + rank)\<close> raises \<open>ZeroDivisionError\<close> when \<open>k + rank = 0\<close>.
\<close>

fun fuse_list :: "int \<Rightarrow> int \<Rightarrow> hit list \<Rightarrow> rrf_state \<Rightarrow> py_error + rrf_state" where
  "fuse_list k rank [] st = Inr st"
| "fuse_list k rank (result # results) st =
     (case h_document_id result of
        None \<Rightarrow> fuse_list k (rank + 1) results st
      | Some doc_id \<Rightarrow>
          if doc_id = [] then fuse_list k (rank + 1) results st
          else if k + rank = 0 then Inl ZeroDivisionError
          else fuse_list k (rank + 1) results
                 (accumulate doc_id (1 / of_int (k + rank)) result st))"

text \<open>Line 26: the outer loop \<open>for results in results_list\<close>.\<close>

fun fuse_lists :: "int \<Rightarrow> hit list list \<Rightarrow> rrf_state \<Rightarrow> py_error + rrf_state" where
  "fuse_lists k [] st = Inr st"
| "fuse_lists k (results # rest) st =
     (case fuse_list k 1 results st of
        Inl e \<Rightarrow> Inl e
      | Inr st' \<Rightarrow> fuse_lists k rest st')"

text \<open>
  Lines 48--52: \<open>sorted(doc_scores.items(), key=lambda x: x[1], reverse=True)\<close>.  Python's
  sort is stable, and \<open>reverse=True\<close> keeps the original order of equal keys, so it is the
  stable ascending sort on the negated score.
\<close>

definition sorted_docs :: "(string \<times> rat) list \<Rightarrow> (string \<times> rat) list" where
  "sorted_docs items = sort_key (\<lambda>x. - snd x) items"

text \<open>Lines 55--59: \<open>doc_data[doc_id]\<close> raises \<open>KeyError\<close> on a missing key.\<close>

fun build_results ::
  "(string \<times> doc_entry) list \<Rightarrow> (string \<times> rat) list \<Rightarrow> py_error + ranked_hit list" where
  "build_results dd [] = Inr []"
| "build_results dd ((doc_id, sc) # rest) =
     (case map_of dd doc_id of
        None \<Rightarrow> Inl (KeyError doc_id)
      | Some e \<Rightarrow>
          (case build_results dd rest of
             Inl err \<Rightarrow> Inl err
           | Inr merged \<Rightarrow>
               Inr (\<lparr>document_id = d_document_id e, content = d_content e,
                     metadata = d_metadata e, score = sc\<rparr> # merged)))"

definition reciprocal_rank_fusion :: "hit list list \<Rightarrow> int \<Rightarrow> py_error + ranked_hit list" where
  "reciprocal_rank_fusion results_list k =
     (case fuse_lists k results_list rrf_init of
        Inl e \<Rightarrow> Inl e
      | Inr st \<Rightarrow> build_results (doc_data st) (sorted_docs (doc_scores st)))"

subsection \<open>The vocabulary of the specification\<close>

text \<open>The document ids of a list that are neither missing nor empty, in list order.\<close>

definition present_id :: "hit \<Rightarrow> string option" where
  "present_id h = (case h_document_id h of None \<Rightarrow> None | Some d \<Rightarrow> if d = [] then None else Some d)"

definition ids_of :: "hit list \<Rightarrow> string list" where
  "ids_of results = List.map_filter present_id results"

text \<open>Each element once, at the place of its first occurrence.\<close>

fun first_appearance :: "'a list \<Rightarrow> 'a list" where
  "first_appearance [] = []"
| "first_appearance (x # xs) = x # filter (\<lambda>y. y \<noteq> x) (first_appearance xs)"

text \<open>
  The score formula in the words of the specification: the sum, over every list and every
  1-based position at which \<open>d\<close> occurs, of \<open>1 / (k + position)\<close>.
\<close>

definition rrf_formula :: "int \<Rightarrow> hit list list \<Rightarrow> string \<Rightarrow> rat" where
  "rrf_formula k results_list d =
     (\<Sum>results \<leftarrow> results_list.
        \<Sum>i \<leftarrow> [0..<length results].
          if h_document_id (results ! i) = Some d then 1 / of_int (k + (int i + 1)) else 0)"

text \<open>The same sum for one list whose first element has rank \<open>rank\<close>.\<close>

fun contrib :: "int \<Rightarrow> int \<Rightarrow> hit list \<Rightarrow> string \<Rightarrow> rat" where
  "contrib k rank [] d = 0"
| "contrib k rank (h # hs) d =
     (if h_document_id h = Some d then 1 / of_int (k + rank) else 0) + contrib k (rank + 1) hs d"

definition score_of :: "(string \<times> rat) list \<Rightarrow> string \<Rightarrow> rat" where
  "score_of items d = (case map_of items d of None \<Rightarrow> 0 | Some s \<Rightarrow> s)"

text \<open>The two readings of "descending by fused score".\<close>

definition descending_by_score :: "ranked_hit list \<Rightarrow> bool" where
  "descending_by_score out = sorted_wrt (\<lambda>a b. score b \<le> score a) out"

definition strictly_descending_by_score :: "ranked_hit list \<Rightarrow> bool" where
  "strictly_descending_by_score out = sorted_wrt (\<lambda>a b. score b < score a) out"


text \<open>
  The invariant tying the two dicts together: every key of \<open>doc_scores\<close> is a key of
  \<open>doc_data\<close>, stored under its own id, so \<open>doc_data[doc_id]\<close> never raises.
\<close>

definition dd_ok :: "rrf_state \<Rightarrow> bool" where
  "dd_ok st = (\<forall>d s. map_of (doc_scores st) d = Some s \<longrightarrow>
                 (\<exists>e. map_of (doc_data st) d = Some e \<and> d_document_id e = d))"

text \<open>A hit as the tests build it: an id, a content, a retrieval score, no metadata.\<close>

definition hit_of :: "string \<Rightarrow> string \<Rightarrow> rat \<Rightarrow> hit" where
  "hit_of d c s = \<lparr>h_document_id = Some d, h_content = Some c, h_metadata = None, h_score = s\<rparr>"

section \<open>Sparse vectorisation (\<open>QdrantService._create_sparse_vector\<close>)\<close>

subsection \<open>Python strings\<close>

text \<open>
  A text is a \<open>string\<close>: each \<open>char\<close> is one code point in the range U+0000 to U+00FF.
  On this range \<open>str.lower\<close>, the whitespace of \<open>str.split()\<close> and the UTF-8 encoding
  are the following functions.  Code points beyond U+00FF are outside the model: there
  \<open>str.lower\<close> may change the length of the text, \<open>str.split()\<close> knows more separators,
  and \<open>str.encode\<close> raises on a lone surrogate.
\<close>

definition py_lower_char :: "char \<Rightarrow> char" where
  "py_lower_char c =
     (let n = (of_char c :: nat)
      in if (65 \<le> n \<and> n \<le> 90) \<or> (192 \<le> n \<and> n \<le> 222 \<and> n \<noteq> 215)
         then char_of (n + 32) else c)"

definition py_lower :: "string \<Rightarrow> string" where
  "py_lower s = map py_lower_char s"

definition py_isspace :: "char \<Rightarrow> bool" where
  "py_isspace c =
     (let n = (of_char c :: nat)
      in (9 \<le> n \<and> n \<le> 13) \<or> (28 \<le> n \<and> n \<le> 32) \<or> n = 133 \<or> n = 160)"

text \<open>
  \<open>str.split()\<close> without arguments: the maximal runs of non-whitespace characters;
  \<open>cur\<close> is the run being read.
\<close>

fun split_from :: "string \<Rightarrow> string \<Rightarrow> string list" where
  "split_from cur [] = (if cur = [] then [] else [cur])"
| "split_from cur (c # cs) =
     (if py_isspace c then (if cur = [] then split_from [] cs else cur # split_from [] cs)
      else split_from (cur @ [c]) cs)"

definition py_split :: "string \<Rightarrow> string list" where
  "py_split s = split_from [] s"

text \<open>\<open>str.encode('utf-8')\<close>: one byte below U+0080, two bytes from U+0080 to U+00FF.\<close>

definition utf8_char :: "char \<Rightarrow> 8 word list" where
  "utf8_char c =
     (let n = (of_char c :: nat)
      in if n < 128 then [of_nat n] else [of_nat (192 + n div 64), of_nat (128 + n mod 64)])"

definition utf8_encode :: "string \<Rightarrow> 8 word list" where
  "utf8_encode s = concat (map utf8_char s)"

subsection \<open>\<open>hashlib.md5\<close> (RFC 1321)\<close>

text \<open>
  The padded message: the byte \<open>0x80\<close>, zero bytes up to 56 modulo 64, and the length
  in bits as a 64-bit little-endian number.
\<close>

definition md5_pad :: "8 word list \<Rightarrow> 8 word list" where
  "md5_pad msg =
     (let bits = (push_bit 3 (of_nat (length msg)) :: 64 word)
      in msg @ [128] @ replicate ((119 - length msg mod 64) mod 64) 0
             @ map (\<lambda>i. ucast (drop_bit (8 * i) bits)) [0..<8])"

definition md5_blocks :: "8 word list \<Rightarrow> 8 word list list" where
  "md5_blocks bs = map (\<lambda>i. take 64 (drop (64 * i) bs)) [0..<length bs div 64]"

text \<open>The sixteen little-endian 32-bit words of a block.\<close>

definition le_word :: "8 word list \<Rightarrow> 32 word" where
  "le_word bs =
     ucast (bs ! 0) OR push_bit 8 (ucast (bs ! 1)) OR push_bit 16 (ucast (bs ! 2))
       OR push_bit 24 (ucast (bs ! 3))"

definition md5_words :: "8 word list \<Rightarrow> 32 word list" where
  "md5_words blk = map (\<lambda>j. le_word (take 4 (drop (4 * j) blk))) [0..<16]"

definition rotl32 :: "nat \<Rightarrow> 32 word \<Rightarrow> 32 word" where
  "rotl32 s x = push_bit s x OR drop_bit (32 - s) x"

definition md5_F :: "32 word \<Rightarrow> 32 word \<Rightarrow> 32 word \<Rightarrow> 32 word" where
  "md5_F x y z = (x AND y) OR (NOT x AND z)"

definition md5_G :: "32 word \<Rightarrow> 32 word \<Rightarrow> 32 word \<Rightarrow> 32 word" where
  "md5_G x y z = (x AND z) OR (y AND NOT z)"

definition md5_H :: "32 word \<Rightarrow> 32 word \<Rightarrow> 32 word \<Rightarrow> 32 word" where
  "md5_H x y z = x XOR y XOR z"

definition md5_I :: "32 word \<Rightarrow> 32 word \<Rightarrow> 32 word \<Rightarrow> 32 word" where
  "md5_I x y z = y XOR (x OR NOT z)"

type_synonym md5_state = "32 word \<times> 32 word \<times> 32 word \<times> 32 word"

text \<open>
  One step \<open>a = b + ((a + f(b,c,d) + X[g] + T) <<< s)\<close> followed by the rotation of the
  four registers; a table row is \<open>(g, s, T)\<close>.
\<close>

definition md5_step ::
  "(32 word \<Rightarrow> 32 word \<Rightarrow> 32 word \<Rightarrow> 32 word) \<Rightarrow> 32 word list \<Rightarrow> nat \<times> nat \<times> 32 word
     \<Rightarrow> md5_state \<Rightarrow> md5_state" where
  "md5_step f X row st =
     (case (row, st) of ((g, s, t), (a, b, c, d)) \<Rightarrow>
        (d, b + rotl32 s (a + f b c d + X ! g + t), b, c))"

definition md5_round ::
  "(32 word \<Rightarrow> 32 word \<Rightarrow> 32 word \<Rightarrow> 32 word) \<Rightarrow> (nat \<times> nat \<times> 32 word) list \<Rightarrow> 32 word list
     \<Rightarrow> md5_state \<Rightarrow> md5_state" where
  "md5_round f rows X st = fold (md5_step f X) rows st"

definition md5_rows1 :: "(nat \<times> nat \<times> 32 word) list" where
  "md5_rows1 =
     [(0, 7, 0xD76AA478), (1, 12, 0xE8C7B756), (2, 17, 0x242070DB), (3, 22, 0xC1BDCEEE),
      (4, 7, 0xF57C0FAF), (5, 12, 0x4787C62A), (6, 17, 0xA8304613), (7, 22, 0xFD469501),
      (8, 7, 0x698098D8), (9, 12, 0x8B44F7AF), (10, 17, 0xFFFF5BB1), (11, 22, 0x895CD7BE),
      (12, 7, 0x6B901122), (13, 12, 0xFD987193), (14, 17, 0xA679438E), (15, 22, 0x49B40821)]"

definition md5_rows2 :: "(nat \<times> nat \<times> 32 word) list" where
  "md5_rows2 =
     [(1, 5, 0xF61E2562), (6, 9, 0xC040B340), (11, 14, 0x265E5A51), (0, 20, 0xE9B6C7AA),
      (5, 5, 0xD62F105D), (10, 9, 0x02441453), (15, 14, 0xD8A1E681), (4, 20, 0xE7D3FBC8),
      (9, 5, 0x21E1CDE6), (14, 9, 0xC33707D6), (3, 14, 0xF4D50D87), (8, 20, 0x455A14ED),
      (13, 5, 0xA9E3E905), (2, 9, 0xFCEFA3F8), (7, 14, 0x676F02D9), (12, 20, 0x8D2A4C8A)]"

definition md5_rows3 :: "(nat \<times> nat \<times> 32 word) list" where
  "md5_rows3 =
     [(5, 4, 0xFFFA3942), (8, 11, 0x8771F681), (11, 16, 0x6D9D6122), (14, 23, 0xFDE5380C),
      (1, 4, 0xA4BEEA44), (4, 11, 0x4BDECFA9), (7, 16, 0xF6BB4B60), (10, 23, 0xBEBFBC70),
      (13, 4, 0x289B7EC6), (0, 11, 0xEAA127FA), (3, 16, 0xD4EF3085), (6, 23, 0x04881D05),
      (9, 4, 0xD9D4D039), (12, 11, 0xE6DB99E5), (15, 16, 0x1FA27CF8), (2, 23, 0xC4AC5665)]"

definition md5_rows4 :: "(nat \<times> nat \<times> 32 word) list" where
  "md5_rows4 =
     [(0, 6, 0xF4292244), (7, 10, 0x432AFF97), (14, 15, 0xAB9423A7), (5, 21, 0xFC93A039),
      (12, 6, 0x655B59C3), (3, 10, 0x8F0CCC92), (10, 15, 0xFFEFF47D), (1, 21, 0x85845DD1),
      (8, 6, 0x6FA87E4F), (15, 10, 0xFE2CE6E0), (6, 15, 0xA3014314), (13, 21, 0x4E0811A1),
      (4, 6, 0xF7537E82), (11, 10, 0xBD3AF235), (2, 15, 0x2AD7D2BB), (9, 21, 0xEB86D391)]"

definition md5_block :: "8 word list \<Rightarrow> md5_state \<Rightarrow> md5_state" where
  "md5_block blk st =
     (let X = md5_words blk
      in case (st, md5_round md5_I md5_rows4 X
                     (md5_round md5_H md5_rows3 X
                        (md5_round md5_G md5_rows2 X
                           (md5_round md5_F md5_rows1 X st)))) of
           ((a, b, c, d), (a', b', c', d')) \<Rightarrow> (a + a', b + b', c + c', d + d'))"

definition md5_init :: md5_state where
  "md5_init = (0x67452301, 0xEFCDAB89, 0x98BADCFE, 0x10325476)"

definition md5 :: "8 word list \<Rightarrow> md5_state" where
  "md5 msg = fold md5_block (md5_blocks (md5_pad msg)) md5_init"

text \<open>
  \<open>int(hash_obj.hexdigest()[:8], 16)\<close>: the first four digest bytes, which are register
  \<open>A\<close> in little-endian order, read as a big-endian number.
\<close>

definition hexdigest8 :: "md5_state \<Rightarrow> int" where
  "hexdigest8 st =
     (case st of (a, b, c, d) \<Rightarrow>
        uint (push_bit 24 (a AND 0xFF) OR push_bit 16 (drop_bit 8 a AND 0xFF)
              OR push_bit 8 (drop_bit 16 a AND 0xFF) OR drop_bit 24 a))"

definition bucket_index :: "string \<Rightarrow> int" where
  "bucket_index word = hexdigest8 (md5 (utf8_encode word)) mod 10000"

subsection \<open>The vectoriser\<close>

text \<open>
  \<open>SparseVector(indices=..., values=...)\<close>; \<open>float(freq)\<close> is exact for every count a text
  can reach.
\<close>

record sparse_vector =
  sv_indices :: "int list"
  sv_values :: "rat list"

text \<open>
  The service object: \<open>self.client\<close> with the points it stores and
  \<open>self.collection_name\<close>.  A point carries the payload written by \<open>insert_document\<close> and
  its two vectors.
\<close>

record point =
  p_id :: nat
  p_tenant_id :: string
  p_document_id :: string
  p_content :: string
  p_metadata :: json
  p_dense :: "rat list"
  p_sparse :: sparse_vector

record qdrant_service =
  client :: "point list"
  collection_name :: string

text \<open>\<open>word_freq[word] = word_freq.get(word, 0) + 1\<close> for each word in turn.\<close>

definition dict_get :: "('k \<times> 'v) list \<Rightarrow> 'k \<Rightarrow> 'v \<Rightarrow> 'v" where
  "dict_get d key dflt = (case map_of d key of None \<Rightarrow> dflt | Some v \<Rightarrow> v)"

definition count_word :: "(string \<times> nat) list \<Rightarrow> string \<Rightarrow> (string \<times> nat) list" where
  "count_word word_freq word = AList.update word (dict_get word_freq word 0 + 1) word_freq"

definition count_words :: "(string \<times> nat) list \<Rightarrow> string list \<Rightarrow> (string \<times> nat) list" where
  "count_words word_freq words = foldl count_word word_freq words"

definition create_sparse_vector :: "qdrant_service \<Rightarrow> string \<Rightarrow> sparse_vector" where
  "create_sparse_vector self text =
     (let words = py_split (py_lower text);
          word_freq = count_words [] words
      in \<lparr>sv_indices = map (\<lambda>(word, freq). bucket_index word) word_freq,
          sv_values = map (\<lambda>(word, freq). of_nat freq) word_freq\<rparr>)"

text \<open>
  The collision policy of the specification, as a predicate on the result: one weight per
  bucket index.
\<close>

definition one_weight_per_index :: "sparse_vector \<Rightarrow> bool" where
  "one_weight_per_index v = distinct (sv_indices v)"

section \<open>The Vector Store client (\<open>app/services/qdrant_client.py\<close>)\<close>

text \<open>
  The Vector Store itself is an external collaborator.  Its client calls are modelled on
  the one collection the service addresses, a list of points: \<open>search\<close> keeps the points
  that satisfy the filter, scores them with the store's similarity (any function of the
  query vector and the point), orders them by descending score and returns the first
  \<open>limit\<close>; \<open>scroll\<close> pages through the matching points in the order of their ids,
  starting at \<open>offset\<close>, and returns the id of the next point when there is one;
  \<open>delete\<close> removes the points with the given ids; \<open>upsert\<close> replaces the point of the
  same id or adds a new one.  A store that cannot be reached is not modelled.
\<close>

record field_condition =
  fc_key :: string
  fc_match :: string

record query_filter =
  must :: "field_condition list"

definition payload_get :: "point \<Rightarrow> string \<Rightarrow> string option" where
  "payload_get p key =
     (if key = ''tenant_id'' then Some (p_tenant_id p)
      else if key = ''document_id'' then Some (p_document_id p)
      else if key = ''content'' then Some (p_content p)
      else None)"

definition condition_holds :: "field_condition \<Rightarrow> point \<Rightarrow> bool" where
  "condition_holds c p = (payload_get p (fc_key c) = Some (fc_match c))"

definition filter_matches :: "query_filter \<Rightarrow> point \<Rightarrow> bool" where
  "filter_matches flt p = list_all (\<lambda>c. condition_holds c p) (must flt)"

datatype query_vector = Dense "rat list" | Sparse sparse_vector

definition client_search ::
  "(query_vector \<Rightarrow> point \<Rightarrow> rat) \<Rightarrow> point list \<Rightarrow> query_vector \<Rightarrow> query_filter \<Rightarrow> nat
     \<Rightarrow> (point \<times> rat) list" where
  "client_search similarity points qv flt limit =
     take limit (sort_key (\<lambda>ps. - snd ps)
       (map (\<lambda>p. (p, similarity qv p)) (filter (filter_matches flt) points)))"

definition client_upsert :: "point list \<Rightarrow> point \<Rightarrow> point list" where
  "client_upsert points p =
     (if p_id p \<in> set (map p_id points)
      then map (\<lambda>q. if p_id q = p_id p then p else q) points
      else points @ [p])"

definition client_scroll ::
  "point list \<Rightarrow> query_filter \<Rightarrow> nat \<Rightarrow> nat option \<Rightarrow> point list \<times> nat option" where
  "client_scroll points flt limit offset =
     (let page = sort_key p_id
            (filter (\<lambda>p. filter_matches flt p
                        \<and> (case offset of None \<Rightarrow> True | Some off \<Rightarrow> off \<le> p_id p)) points)
      in (take limit page, if limit < length page then Some (p_id (page ! limit)) else None))"

definition client_delete :: "point list \<Rightarrow> nat list \<Rightarrow> point list" where
  "client_delete points point_ids = filter (\<lambda>p. p_id p \<notin> set point_ids) points"

text \<open>
  \<open>Filter(must=[FieldCondition(key="tenant_id", match=MatchValue(value=tenant_id))])\<close>,
  written out three times in the source.
\<close>

definition tenant_filter :: "string \<Rightarrow> query_filter" where
  "tenant_filter tenant_id = \<lparr>must = [\<lparr>fc_key = ''tenant_id'', fc_match = tenant_id\<rparr>]\<rparr>"

text \<open>\<open>insert_document\<close>; \<open>point_id\<close> is the value of \<open>uuid.uuid4()\<close>.\<close>

definition insert_document ::
  "qdrant_service \<Rightarrow> nat \<Rightarrow> string \<Rightarrow> string \<Rightarrow> string \<Rightarrow> json \<Rightarrow> rat list \<Rightarrow> qdrant_service" where
  "insert_document self point_id tenant_id doc_id text meta dense_vector =
     (let sparse = create_sparse_vector self text;
          new_point = \<lparr>p_id = point_id, p_tenant_id = tenant_id, p_document_id = doc_id,
                       p_content = text, p_metadata = meta, p_dense = dense_vector,
                       p_sparse = sparse\<rparr>
      in self\<lparr>client := client_upsert (client self) new_point\<rparr>)"

text \<open>The dict built from a scored point by \<open>search_dense\<close> and \<open>search_sparse\<close>.\<close>

definition to_hit :: "point \<times> rat \<Rightarrow> hit" where
  "to_hit ps =
     \<lparr>h_document_id = Some (p_document_id (fst ps)), h_content = Some (p_content (fst ps)),
      h_metadata = Some (p_metadata (fst ps)), h_score = snd ps\<rparr>"

definition search_dense ::
  "(query_vector \<Rightarrow> point \<Rightarrow> rat) \<Rightarrow> qdrant_service \<Rightarrow> string \<Rightarrow> rat list \<Rightarrow> nat \<Rightarrow> hit list" where
  "search_dense similarity self tenant_id qvec top_k =
     map to_hit
       (client_search similarity (client self) (Dense qvec) (tenant_filter tenant_id) top_k)"

definition search_sparse ::
  "(query_vector \<Rightarrow> point \<Rightarrow> rat) \<Rightarrow> qdrant_service \<Rightarrow> string \<Rightarrow> string \<Rightarrow> nat \<Rightarrow> hit list" where
  "search_sparse similarity self tenant_id query_text top_k =
     (let sparse = create_sparse_vector self query_text
      in map to_hit
           (client_search similarity (client self) (Sparse sparse) (tenant_filter tenant_id) top_k))"

text \<open>
  \<open>delete_by_tenant\<close>: the \<open>while True\<close> loop with its two exits, on the store contents,
  the scroll offset and the running count.  Every round that continues has deleted at
  least one point, so the loop ends.
\<close>

function delete_loop ::
  "point list \<Rightarrow> query_filter \<Rightarrow> nat option \<Rightarrow> int \<Rightarrow> point list \<times> int" where
  "delete_loop points flt offset deleted_count =
     (let page = client_scroll points flt 100 offset;
          results = fst page;
          next_offset = snd page
      in if results = [] then (points, deleted_count)
         else
           (let point_ids = map p_id results;
                points' = client_delete points point_ids;
                deleted_count' = deleted_count + int (length point_ids)
            in if next_offset = None then (points', deleted_count')
               else delete_loop points' flt next_offset deleted_count'))"
  by pat_completeness auto
termination
proof (relation "measure (\<lambda>(points, flt, offset, deleted_count). length points)")
  show "wf (measure (\<lambda>(points, flt, offset, deleted_count). length points))" by simp
next
  fix points :: "point list" and flt :: query_filter and offset :: "nat option"
    and deleted_count :: int and page results next_offset point_ids points' deleted_count'
  assume page: "page = client_scroll points flt 100 offset"
    and results: "results = fst page" "results \<noteq> []"
    and ids: "point_ids = map p_id results"
    and del: "points' = client_delete points point_ids"
  from results(2) obtain r where r: "r \<in> set results" by (cases results) auto
  then have "r \<in> set points"
    using page results(1) by (auto simp: client_scroll_def Let_def dest: in_set_takeD)
  moreover have "p_id r \<in> set point_ids" using r ids by simp
  ultimately have "length (client_delete points point_ids) < length points"
    unfolding client_delete_def by (intro length_filter_less[of r]) auto
  then show "((points', flt, next_offset, deleted_count'), (points, flt, offset, deleted_count))
               \<in> measure (\<lambda>(points, flt, offset, deleted_count). length points)"
    by (simp add: del)
qed

declare delete_loop.simps [simp del]

definition delete_by_tenant :: "qdrant_service \<Rightarrow> string \<Rightarrow> qdrant_service \<times> int" where
  "delete_by_tenant self tenant_id =
     (case delete_loop (client self) (tenant_filter tenant_id) None 0 of
        (points', deleted_count) \<Rightarrow> (self\<lparr>client := points'\<rparr>, deleted_count))"

section \<open>Hybrid search (\<open>app/services/search.py\<close>)\<close>

text \<open>
  What one request meets outside the service: the embedding model, the store's similarity,
  and the time after which each of the two searches has its result.
\<close>

record world =
  encode :: "string \<Rightarrow> rat list"
  similarity :: "query_vector \<Rightarrow> point \<Rightarrow> rat"
  dense_seconds :: rat
  sparse_seconds :: rat

text \<open>The fields of \<open>Settings\<close> (\<open>app/config.py\<close>) that the service reads after start-up.\<close>

record settings =
  llm_provider :: string
  llm_api_key :: "string option"
  llm_model :: string
  ollama_base_url :: string
  llm_timeout :: rat
  search_timeout :: rat
  rrf_k :: int

text \<open>
  A coroutine object can be driven once.  \<open>asyncio.gather\<close> wraps each of its arguments in
  a task, which drives it; a later \<open>await\<close> of the same object raises
  \<open>RuntimeError: cannot reuse already awaited coroutine\<close>.
\<close>

datatype 'a coroutine = Coroutine 'a | Awaited

definition await_coroutine :: "'a coroutine \<Rightarrow> py_error + 'a" where
  "await_coroutine c =
     (case c of
        Coroutine v \<Rightarrow> Inr v
      | Awaited \<Rightarrow> Inl (RuntimeError ''cannot reuse already awaited coroutine''))"

text \<open>
  \<open>await asyncio.wait_for(asyncio.gather(c1, c2), timeout)\<close>, given the time each
  coroutine needs: the pair of results when both are there by the deadline,
  \<open>TimeoutError\<close> otherwise.  Both coroutine objects are spent afterwards.
\<close>

definition wait_for_gather ::
  "rat \<Rightarrow> 'a coroutine \<times> rat \<Rightarrow> 'b coroutine \<times> rat
     \<Rightarrow> (py_error + 'a \<times> 'b) \<times> 'a coroutine \<times> 'b coroutine" where
  "wait_for_gather timeout run1 run2 =
     (case (fst run1, fst run2) of
        (Coroutine r1, Coroutine r2) \<Rightarrow>
          (if snd run1 \<le> timeout \<and> snd run2 \<le> timeout then Inr (r1, r2) else Inl TimeoutError,
           Awaited, Awaited)
      | _ \<Rightarrow> (Inl (RuntimeError ''cannot reuse already awaited coroutine''), Awaited, Awaited))"

text \<open>
  \<open>SearchService.hybrid_search\<close>.  The latency it also returns is read off the clock and
  is left out.
\<close>

definition hybrid_search ::
  "world \<Rightarrow> settings \<Rightarrow> qdrant_service \<Rightarrow> string \<Rightarrow> string \<Rightarrow> nat \<Rightarrow> py_error + ranked_hit list" where
  "hybrid_search w cfg qdrant tenant_id query top_k =
     (let query_embedding = encode w query;
          dense_task = Coroutine (search_dense (similarity w) qdrant tenant_id query_embedding (top_k * 2));
          sparse_task = Coroutine (search_sparse (similarity w) qdrant tenant_id query (top_k * 2))
      in case wait_for_gather (search_timeout cfg)
                (dense_task, dense_seconds w) (sparse_task, sparse_seconds w) of
           (outcome, dense_task', sparse_task') \<Rightarrow>
             (case (case outcome of
                      Inr (dense_results, sparse_results) \<Rightarrow> Inr (dense_results, sparse_results)
                    | Inl TimeoutError \<Rightarrow>
                        (case await_coroutine dense_task' of
                           Inl e \<Rightarrow> Inl e
                         | Inr dense_results \<Rightarrow> Inr (dense_results, []))
                    | Inl e \<Rightarrow> Inl e) of
                Inl e \<Rightarrow> Inl e
              | Inr (dense_results, sparse_results) \<Rightarrow>
                  (case reciprocal_rank_fusion [dense_results, sparse_results] (rrf_k cfg) of
                     Inl e \<Rightarrow> Inl e
                   | Inr merged_results \<Rightarrow> Inr (take top_k merged_results))))"

section \<open>Summarisation (\<open>app/services/llm_service.py\<close>, \<open>app/utils/circuit_breaker.py\<close>, \<open>app/main.py\<close>)\<close>

















section \<open>Auxiliary notions and a running example\<close>

text \<open>
  Where the fields of a \<open>doc_data\<close> entry come from: a hit with that id, with the
  defaults of \<open>result.get\<close> filled in.
\<close>

definition entry_of :: "hit \<Rightarrow> doc_entry \<Rightarrow> bool" where
  "entry_of h e =
     (h_document_id h = Some (d_document_id e)
      \<and> d_content e = (case h_content h of None \<Rightarrow> [] | Some c \<Rightarrow> c)
      \<and> d_metadata e = (case h_metadata h of None \<Rightarrow> JObj [] | Some m \<Rightarrow> m))"

definition from_hits :: "hit set \<Rightarrow> rrf_state \<Rightarrow> bool" where
  "from_hits H st = (\<forall>d e. map_of (doc_data st) d = Some e \<longrightarrow> (\<exists>h\<in>H. entry_of h e))"

text \<open>
  A store with one document of \<open>tenant_b\<close> (the second document of
  \<open>test_tenant_isolation\<close>), the default settings of \<open>app/config.py\<close>, and three
  environments: one in which both searches answer well within the deadline, one in which
  the sparse search answers after it, a provider client that needs three seconds and one
  that raises \<open>CircuitBreakerException\<close>, and the module state before the first request.
\<close>

definition example_settings :: settings where
  "example_settings =
     \<lparr>llm_provider = ''groq'', llm_api_key = Some ''key'', llm_model = ''llama-3-8b-8192'',
      ollama_base_url = ''http://localhost:11434'', llm_timeout = 2,
      search_timeout = 8 / 10, rrf_k = 60\<rparr>"

definition example_service :: qdrant_service where
  "example_service =
     \<lparr>client =
        [\<lparr>p_id = 1, p_tenant_id = ''tenant_b'', p_document_id = ''doc_b1'',
          p_content = ''Secret information for tenant B.'', p_metadata = JObj [],
          p_dense = [1], p_sparse = \<lparr>sv_indices = [], sv_values = []\<rparr>\<rparr>],
      collection_name = ''rag_documents''\<rparr>"

definition fast_world :: world where
  "fast_world =
     \<lparr>encode = (\<lambda>text. [1]), similarity = (\<lambda>qv p. 1),
      dense_seconds = 1 / 10, sparse_seconds = 2 / 10\<rparr>"






definition example_result :: ranked_hit where
  "example_result =
     \<lparr>document_id = ''doc_b1'', content = ''Secret information for tenant B.'',
      metadata = JObj [], score = 2 / 61\<rparr>"

definition slow_sparse_world :: world where
  "slow_sparse_world =
     \<lparr>encode = (\<lambda>text. [1]), similarity = (\<lambda>qv p. 1),
      dense_seconds = 1 / 10, sparse_seconds = 2\<rparr>"

section \<open>Properties of Reciprocal Rank Fusion\<close>

lemma fuse_list_total: "0 < k + rank \<Longrightarrow> \<exists>st'. fuse_list k rank results st = Inr st'"
proof (induction results arbitrary: rank st)
  case Nil then show ?case by simp
next
  case (Cons h hs)
  have "0 < k + (rank + 1)" using Cons.prems by simp
  from Cons.IH[OF this] show ?case using Cons.prems by (simp split: option.split)
qed

lemma fuse_lists_total: "0 < k \<Longrightarrow> \<exists>st'. fuse_lists k ls st = Inr st'"
proof (induction ls arbitrary: st)
  case Nil then show ?case by simp
next
  case (Cons r rs)
  obtain st1 where "fuse_list k 1 r st = Inr st1" using fuse_list_total[of k 1 r st] Cons.prems by auto
  then show ?case using Cons.IH[OF Cons.prems, of st1] by simp
qed

lemma keys_accumulate:
  "map fst (doc_scores (accumulate d s h st)) =
     (if d \<in> set (map fst (doc_scores st)) then map fst (doc_scores st) else map fst (doc_scores st) @ [d])"
  by (auto simp: accumulate_def AList.update_keys split: option.split dest: map_of_SomeD simp: map_of_eq_None_iff image_iff)

lemma score_of_accumulate:
  "score_of (doc_scores (accumulate d s h st)) d' = score_of (doc_scores st) d' + (if d' = d then s else 0)"
  by (auto simp: accumulate_def score_of_def AList.update_conv' split: option.split)

lemma ids_of_Cons:
  "ids_of (h # hs) = (case present_id h of None \<Rightarrow> ids_of hs | Some d \<Rightarrow> d # ids_of hs)"
  by (simp add: ids_of_def List.map_filter_simps split: option.split)

lemma ids_of_Nil [simp]: "ids_of [] = []"
  by (simp add: ids_of_def List.map_filter_simps)

lemma fuse_list_keys:
  "fuse_list k rank results st = Inr st' \<Longrightarrow>
   map fst (doc_scores st') =
     map fst (doc_scores st) @
       filter (\<lambda>d. d \<notin> set (map fst (doc_scores st))) (first_appearance (ids_of results))"
proof (induction results arbitrary: rank st)
  case Nil then show ?case by simp
next
  case (Cons h hs)
  show ?case
  proof (cases "present_id h")
    case None
    then have "fuse_list k (rank + 1) hs st = Inr st'" using Cons.prems
      by (auto simp: present_id_def split: option.splits if_splits)
    from Cons.IH[OF this] show ?thesis using None by (simp add: ids_of_Cons)
  next
    case (Some d)
    then have hd: "h_document_id h = Some d" "d \<noteq> []"
      by (auto simp: present_id_def split: option.splits if_splits)
    then have "fuse_list k (rank + 1) hs (accumulate d (1 / of_int (k + rank)) h st) = Inr st'"
      using Cons.prems by (auto split: if_splits)
    from Cons.IH[OF this] show ?thesis using Some
      by (auto simp: ids_of_Cons keys_accumulate filter_filter intro!: filter_cong)
  qed
qed

lemma fuse_list_scores:
  "fuse_list k rank results st = Inr st' \<Longrightarrow> d \<noteq> [] \<Longrightarrow>
   score_of (doc_scores st') d = score_of (doc_scores st) d + contrib k rank results d"
proof (induction results arbitrary: rank st)
  case Nil then show ?case by simp
next
  case (Cons h hs)
  show ?case
  proof (cases "present_id h")
    case None
    then have "fuse_list k (rank + 1) hs st = Inr st'" and "h_document_id h \<noteq> Some d" using Cons.prems
      by (auto simp: present_id_def split: option.splits if_splits)
    then show ?thesis using Cons.IH[of "rank + 1" st] Cons.prems(2) by simp
  next
    case (Some d0)
    then have hd: "h_document_id h = Some d0" "d0 \<noteq> []"
      by (auto simp: present_id_def split: option.splits if_splits)
    then have "fuse_list k (rank + 1) hs (accumulate d0 (1 / of_int (k + rank)) h st) = Inr st'"
      using Cons.prems by (auto split: if_splits)
    from Cons.IH[OF this Cons.prems(2)] show ?thesis using hd
      by (auto simp: score_of_accumulate)
  qed
qed


lemma dd_ok_init: "dd_ok rrf_init"
  by (simp add: dd_ok_def rrf_init_def)

lemma dd_ok_accumulate:
  assumes "dd_ok st"
  shows "dd_ok (accumulate d s h st)"
proof (cases "map_of (doc_scores st) d")
  case None
  show ?thesis
    unfolding dd_ok_def
  proof (intro allI impI)
    fix d' s'
    assume a: "map_of (doc_scores (accumulate d s h st)) d' = Some s'"
    show "\<exists>e. map_of (doc_data (accumulate d s h st)) d' = Some e \<and> d_document_id e = d'"
    proof (cases "d' = d")
      case True
      then show ?thesis using None by (simp add: accumulate_def AList.update_conv')
    next
      case False
      then have "map_of (doc_scores st) d' = Some s'"
        using a None by (simp add: accumulate_def AList.update_conv')
      then show ?thesis using assms False None
        by (simp add: dd_ok_def accumulate_def AList.update_conv')
    qed
  qed
next
  case (Some s0)
  show ?thesis
    unfolding dd_ok_def
  proof (intro allI impI)
    fix d' s'
    assume a: "map_of (doc_scores (accumulate d s h st)) d' = Some s'"
    have "\<exists>s''. map_of (doc_scores st) d' = Some s''"
      using a Some by (cases "d' = d") (simp_all add: accumulate_def AList.update_conv')
    then show "\<exists>e. map_of (doc_data (accumulate d s h st)) d' = Some e \<and> d_document_id e = d'"
      using assms Some by (auto simp: dd_ok_def accumulate_def)
  qed
qed

lemma fuse_list_dd_ok:
  "fuse_list k rank results st = Inr st' \<Longrightarrow> dd_ok st \<Longrightarrow> dd_ok st'"
proof (induction results arbitrary: rank st)
  case Nil then show ?case by simp
next
  case (Cons h hs)
  then show ?case
    by (auto split: option.splits if_splits intro: dd_ok_accumulate)
qed

lemma fuse_lists_dd_ok:
  "fuse_lists k ls st = Inr st' \<Longrightarrow> dd_ok st \<Longrightarrow> dd_ok st'"
proof (induction ls arbitrary: st)
  case Nil then show ?case by simp
next
  case (Cons r rs)
  then show ?case by (auto split: sum.splits dest: fuse_list_dd_ok)
qed

lemma set_first_appearance [simp]: "set (first_appearance xs) = set xs"
  by (induction xs) auto

lemma distinct_first_appearance [simp]: "distinct (first_appearance xs)"
  by (induction xs) auto

lemma first_appearance_append:
  "first_appearance (xs @ ys) = first_appearance xs @ filter (\<lambda>y. y \<notin> set xs) (first_appearance ys)"
  by (induction xs) (auto simp: filter_filter intro!: filter_cong)

lemma fuse_lists_keys:
  "fuse_lists k ls st = Inr st' \<Longrightarrow>
   map fst (doc_scores st') =
     map fst (doc_scores st) @
       filter (\<lambda>d. d \<notin> set (map fst (doc_scores st))) (first_appearance (concat (map ids_of ls)))"
proof (induction ls arbitrary: st)
  case Nil then show ?case by simp
next
  case (Cons r rs)
  then obtain st1 where s1: "fuse_list k 1 r st = Inr st1" and s2: "fuse_lists k rs st1 = Inr st'"
    by (auto split: sum.splits)
  show ?case
    using Cons.IH[OF s2] fuse_list_keys[OF s1]
    by (auto simp: first_appearance_append filter_filter intro!: filter_cong)
qed

lemma fuse_lists_scores:
  "fuse_lists k ls st = Inr st' \<Longrightarrow> d \<noteq> [] \<Longrightarrow>
   score_of (doc_scores st') d = score_of (doc_scores st) d + (\<Sum>r \<leftarrow> ls. contrib k 1 r d)"
proof (induction ls arbitrary: st)
  case Nil then show ?case by simp
next
  case (Cons r rs)
  then obtain st1 where s1: "fuse_list k 1 r st = Inr st1" and s2: "fuse_lists k rs st1 = Inr st'"
    by (auto split: sum.splits)
  show ?case
    using Cons.IH[OF s2 Cons.prems(2)] fuse_list_scores[OF s1 Cons.prems(2)] by simp
qed

lemma contrib_positions:
  "contrib k rank results d =
     (\<Sum>i \<leftarrow> [0..<length results].
        if h_document_id (results ! i) = Some d then 1 / of_int (k + (int i + rank)) else 0)"
proof (induction results arbitrary: rank)
  case Nil then show ?case by simp
next
  case (Cons h hs)
  have "(\<Sum>i \<leftarrow> [0..<length (h # hs)].
          if h_document_id ((h # hs) ! i) = Some d then 1 / of_int (k + (int i + rank)) else (0::rat))
        = (if h_document_id h = Some d then 1 / of_int (k + rank) else 0)
          + (\<Sum>i \<leftarrow> [0..<length hs].
               if h_document_id (hs ! i) = Some d then 1 / of_int (k + (int i + (rank + 1))) else 0)"
    by (simp add: map_upt_Suc ac_simps del: upt_Suc cong: if_cong)
  then show ?case using Cons.IH[of "rank + 1"] by simp
qed

lemma rrf_formula_contrib: "rrf_formula k ls d = (\<Sum>r \<leftarrow> ls. contrib k 1 r d)"
  by (simp add: rrf_formula_def contrib_positions)

lemma contrib_append:
  "contrib k rank (xs @ ys) d = contrib k rank xs d + contrib k (rank + int (length xs)) ys d"
  by (induction xs arbitrary: rank) (auto simp: add.assoc add.commute add.left_commute)

lemma ids_of_nonempty: "d \<in> set (ids_of results) \<Longrightarrow> d \<noteq> []"
  by (induction results) (auto simp: ids_of_Cons present_id_def split: option.splits if_splits)

lemma build_results_ok:
  "(\<forall>x\<in>set items. \<exists>e. map_of dd (fst x) = Some e \<and> d_document_id e = fst x) \<Longrightarrow>
   \<exists>out. build_results dd items = Inr out \<and> map (\<lambda>r. (document_id r, score r)) out = items"
proof (induction items)
  case Nil then show ?case by simp
next
  case (Cons x xs)
  obtain d s where x: "x = (d, s)" by (cases x)
  from Cons.prems obtain e where e: "map_of dd d = Some e" "d_document_id e = d" by (auto simp: x)
  from Cons obtain out where "build_results dd xs = Inr out" "map (\<lambda>r. (document_id r, score r)) out = xs"
    by auto
  then show ?case using e by (simp add: x)
qed

lemma rrf_char:
  assumes "0 < k"
  shows "\<exists>out st. fuse_lists k ls rrf_init = Inr st \<and> reciprocal_rank_fusion ls k = Inr out
           \<and> map (\<lambda>r. (document_id r, score r)) out = sorted_docs (doc_scores st)
           \<and> map fst (doc_scores st) = first_appearance (concat (map ids_of ls))
           \<and> (\<forall>d. d \<noteq> [] \<longrightarrow> score_of (doc_scores st) d = rrf_formula k ls d)"
proof -
  obtain st where st: "fuse_lists k ls rrf_init = Inr st"
    using fuse_lists_total[OF assms] by blast
  have ok: "dd_ok st" using fuse_lists_dd_ok[OF st dd_ok_init] .
  have keys: "map fst (doc_scores st) = first_appearance (concat (map ids_of ls))"
    using fuse_lists_keys[OF st] by (simp add: rrf_init_def)
  have sc: "\<forall>d. d \<noteq> [] \<longrightarrow> score_of (doc_scores st) d = rrf_formula k ls d"
    using fuse_lists_scores[OF st] by (simp add: rrf_init_def score_of_def rrf_formula_contrib)
  have "\<forall>x\<in>set (sorted_docs (doc_scores st)).
          \<exists>e. map_of (doc_data st) (fst x) = Some e \<and> d_document_id e = fst x"
  proof
    fix x assume "x \<in> set (sorted_docs (doc_scores st))"
    then have "x \<in> set (doc_scores st)" by (simp add: sorted_docs_def)
    then have "map_of (doc_scores st) (fst x) \<noteq> None"
      by (metis map_of_eq_None_iff image_eqI)
    then show "\<exists>e. map_of (doc_data st) (fst x) = Some e \<and> d_document_id e = fst x"
      using ok unfolding dd_ok_def by auto
  qed
  from build_results_ok[OF this] obtain out where
    "build_results (doc_data st) (sorted_docs (doc_scores st)) = Inr out"
    "map (\<lambda>r. (document_id r, score r)) out = sorted_docs (doc_scores st)" by blast
  then show ?thesis using st keys sc by (auto simp: reciprocal_rank_fusion_def)
qed

lemma rrf_out_facts:
  assumes "0 < k"
  shows "\<exists>out items. reciprocal_rank_fusion ls k = Inr out
           \<and> map (\<lambda>r. (document_id r, score r)) out = sorted_docs items
           \<and> map fst items = first_appearance (concat (map ids_of ls))
           \<and> (\<forall>x\<in>set items. fst x \<noteq> [] \<and> snd x = rrf_formula k ls (fst x))"
proof -
  from rrf_char[OF assms, of ls] obtain out and st :: rrf_state where
    a: "reciprocal_rank_fusion ls k = Inr out"
    and b: "map (\<lambda>r. (document_id r, score r)) out = sorted_docs (doc_scores st)"
    and c: "map fst (doc_scores st) = first_appearance (concat (map ids_of ls))"
    and d: "\<forall>d. d \<noteq> [] \<longrightarrow> score_of (doc_scores st) d = rrf_formula k ls d"
    by blast
  have dist: "distinct (map fst (doc_scores st))" by (simp add: c)
  have "\<forall>x\<in>set (doc_scores st). fst x \<noteq> [] \<and> snd x = rrf_formula k ls (fst x)"
  proof
    fix x assume x: "x \<in> set (doc_scores st)"
    then have "fst x \<in> set (map fst (doc_scores st))" by simp
    then have "fst x \<in> set (concat (map ids_of ls))" by (simp only: c set_first_appearance)
    then have ne: "fst x \<noteq> []" by (auto dest: ids_of_nonempty)
    have "map_of (doc_scores st) (fst x) = Some (snd x)"
      using dist x by simp
    then have "score_of (doc_scores st) (fst x) = snd x" by (simp add: score_of_def)
    then show "fst x \<noteq> [] \<and> snd x = rrf_formula k ls (fst x)" using d ne by auto
  qed
  with a b c show ?thesis
    by (intro exI[of _ out] exI[of _ "doc_scores st"] conjI)
qed

lemma out_set:
  assumes "map (\<lambda>r. (document_id r, score r)) out = sorted_docs items"
  shows "(\<lambda>r. (document_id r, score r)) ` set out = set items"
proof -
  have "set (map (\<lambda>r. (document_id r, score r)) out) = set items"
    by (simp add: assms sorted_docs_def)
  then show ?thesis by simp
qed

lemma out_ids:
  assumes "map (\<lambda>r. (document_id r, score r)) out = sorted_docs items"
  shows "map document_id out = map fst (sorted_docs items)"
    and "map score out = map snd (sorted_docs items)"
  using assms[symmetric] by (simp_all add: comp_def)



lemma descending_sorted_docs:
  assumes "map (\<lambda>r. (document_id r, score r)) (out :: ranked_hit list) = sorted_docs items"
  shows "descending_by_score out"
proof -
  have "sorted (map (\<lambda>x. - snd x) (sorted_docs items))"
    unfolding sorted_docs_def by (rule sorted_sort_key)
  then have "sorted (map (\<lambda>x. - snd x) (map (\<lambda>r. (document_id r, score r)) out))"
    by (simp only: assms)
  then have "sorted (map (\<lambda>r. - score r) out)" by (simp add: comp_def)
  then show ?thesis by (simp add: sorted_map descending_by_score_def)
qed

lemma distinct_keys_sorted_docs:
  "distinct (map fst items) \<Longrightarrow> distinct (map fst (sorted_docs items))"
  by (simp add: distinct_map sorted_docs_def)

text \<open>
  Claim C4, as amended.  For a positive \<open>k\<close> the fused list contains every document id
  that is present in some input list exactly once and nothing else, and it is ordered by
  descending fused score; the order is not strict, since documents may tie.
\<close>

theorem rrf_complete_descending:
  assumes "0 < k"
  shows "\<exists>out. reciprocal_rank_fusion results_list k = Inr out
           \<and> distinct (map document_id out)
           \<and> set (map document_id out) = set (concat (map ids_of results_list))
           \<and> descending_by_score out"
proof -
  from rrf_out_facts[OF assms, of results_list] obtain out and items :: "(string \<times> rat) list" where
    a: "reciprocal_rank_fusion results_list k = Inr out"
    and b: "map (\<lambda>r. (document_id r, score r)) out = sorted_docs items"
    and c: "map fst items = first_appearance (concat (map ids_of results_list))"
    by blast
  have ids: "map document_id out = map fst (sorted_docs items)" by (rule out_ids(1)[OF b])
  have "distinct (map fst items)" by (simp add: c)
  then have 1: "distinct (map document_id out)"
    by (simp only: ids distinct_keys_sorted_docs)
  have "set (map document_id out) = set (map fst items)"
    by (simp add: ids sorted_docs_def)
  then have 2: "set (map document_id out) = set (concat (map ids_of results_list))"
    by (simp only: c set_first_appearance)
  from a 1 2 descending_sorted_docs[OF b] show ?thesis
    by (intro exI[of _ out] conjI)
qed

text \<open>The theorem at the two disjoint lists of \<open>test_rrf_no_overlap\<close>: all four documents survive.\<close>

theorem rrf_complete_descending_witness:
  "(0::int) < 60 \<and>
   (\<exists>out. reciprocal_rank_fusion
            [[hit_of ''doc1'' ''content1'' (9/10), hit_of ''doc2'' ''content2'' (8/10)],
             [hit_of ''doc3'' ''content3'' (95/100), hit_of ''doc4'' ''content4'' (85/100)]] 60 = Inr out
          \<and> distinct (map document_id out)
          \<and> set (map document_id out) = {''doc1'', ''doc2'', ''doc3'', ''doc4''}
          \<and> descending_by_score out)"
proof -
  have h: "(0::int) < 60" by simp
  have e: "set (concat (map ids_of
            [[hit_of ''doc1'' ''content1'' (9/10), hit_of ''doc2'' ''content2'' (8/10)],
             [hit_of ''doc3'' ''content3'' (95/100), hit_of ''doc4'' ''content4'' (85/100)]]))
          = {''doc1'', ''doc2'', ''doc3'', ''doc4''}"
    by (simp add: ids_of_def List.map_filter_simps present_id_def hit_of_def insert_commute)
  show ?thesis
    using rrf_complete_descending[OF h, of
            "[[hit_of ''doc1'' ''content1'' (9/10), hit_of ''doc2'' ''content2'' (8/10)],
             [hit_of ''doc3'' ''content3'' (95/100), hit_of ''doc4'' ''content4'' (85/100)]]"]
    unfolding e by (intro conjI h)
qed

text \<open>
  Claim C4 as stated asks for a strictly descending order.  The lists of
  \<open>test_rrf_no_overlap\<close> refute it: \<open>doc1\<close> and \<open>doc3\<close> are both at rank 1 of one list
  and both score \<open>1 / 61\<close>.
\<close>

theorem rrf_strictly_descending_counterexample:
  "reciprocal_rank_fusion
     [[hit_of ''doc1'' ''content1'' (9/10), hit_of ''doc2'' ''content2'' (8/10)],
      [hit_of ''doc3'' ''content3'' (95/100), hit_of ''doc4'' ''content4'' (85/100)]] 60
   = Inr [\<lparr>document_id = ''doc1'', content = ''content1'', metadata = JObj [], score = 1 / 61\<rparr>,
          \<lparr>document_id = ''doc3'', content = ''content3'', metadata = JObj [], score = 1 / 61\<rparr>,
          \<lparr>document_id = ''doc2'', content = ''content2'', metadata = JObj [], score = 1 / 62\<rparr>,
          \<lparr>document_id = ''doc4'', content = ''content4'', metadata = JObj [], score = 1 / 62\<rparr>]
   \<and> \<not> strictly_descending_by_score
         [\<lparr>document_id = ''doc1'', content = ''content1'', metadata = JObj [], score = 1 / 61\<rparr>,
          \<lparr>document_id = ''doc3'', content = ''content3'', metadata = JObj [], score = 1 / 61\<rparr>,
          \<lparr>document_id = ''doc2'', content = ''content2'', metadata = JObj [], score = 1 / 62\<rparr>,
          \<lparr>document_id = ''doc4'', content = ''content4'', metadata = JObj [], score = 1 / 62\<rparr>]"
  by (simp add: reciprocal_rank_fusion_def rrf_init_def accumulate_def sorted_docs_def hit_of_def
        strictly_descending_by_score_def)












lemma contrib_missing:
  assumes "h_document_id h = None \<or> h_document_id h = Some []" and "d \<noteq> []"
  shows "contrib k rank (pre @ h # post) d
         = contrib k rank pre d + contrib k (rank + int (length pre) + 1) post d"
  using assms by (auto simp: contrib_append add.assoc)

lemma ids_of_append: "ids_of (xs @ ys) = ids_of xs @ ids_of ys"
  by (simp add: ids_of_def List.map_filter_def)

lemma ids_of_missing:
  "h_document_id h = None \<or> h_document_id h = Some [] \<Longrightarrow> ids_of (pre @ h # post) = ids_of pre @ ids_of post"
  by (auto simp: ids_of_append ids_of_Cons present_id_def)

lemma rrf_formula_append:
  "rrf_formula k (xs @ ys) d = rrf_formula k xs d + rrf_formula k ys d"
  by (simp add: rrf_formula_def)

text \<open>
  Claim C10.  A hit \<open>h\<close> whose document id is missing, \<open>None\<close> or empty adds nothing to
  any score and no element to the output, yet it keeps its position: in the list
  \<open>pre @ h # post\<close> the hits of \<open>post\<close> contribute with ranks starting at
  \<open>length pre + 2\<close>, one more than if \<open>h\<close> were not there.
\<close>

theorem rrf_skipped_hit_keeps_rank:
  assumes "0 < k" and "h_document_id h = None \<or> h_document_id h = Some []"
  shows "\<exists>out. reciprocal_rank_fusion (before @ [pre @ h # post] @ after) k = Inr out
          \<and> (\<forall>r\<in>set out. document_id r \<noteq> []
                \<and> score r = rrf_formula k before (document_id r)
                          + (contrib k 1 pre (document_id r)
                             + contrib k (int (length pre) + 2) post (document_id r))
                          + rrf_formula k after (document_id r))
          \<and> set (map document_id out)
              = set (concat (map ids_of before)) \<union> set (ids_of pre) \<union> set (ids_of post)
                \<union> set (concat (map ids_of after))"
proof -
  let ?ls = "before @ [pre @ h # post] @ after"
  from rrf_out_facts[OF assms(1), of ?ls] obtain out and items :: "(string \<times> rat) list" where
    a: "reciprocal_rank_fusion ?ls k = Inr out"
    and b: "map (\<lambda>r. (document_id r, score r)) out = sorted_docs items"
    and c: "map fst items = first_appearance (concat (map ids_of ?ls))"
    and d: "\<forall>x\<in>set items. fst x \<noteq> [] \<and> snd x = rrf_formula k ?ls (fst x)"
    by blast
  have s: "(\<lambda>r. (document_id r, score r)) ` set out = set items" using out_set[OF b] .
  have f: "\<And>d'. d' \<noteq> [] \<Longrightarrow> rrf_formula k ?ls d'
             = rrf_formula k before d'
               + (contrib k 1 pre d' + contrib k (int (length pre) + 2) post d')
               + rrf_formula k after d'"
    using contrib_missing[OF assms(2), of _ k 1 pre post]
    by (simp add: rrf_formula_append rrf_formula_contrib add.commute add.left_commute)
  have 1: "\<forall>r\<in>set out. document_id r \<noteq> []
                \<and> score r = rrf_formula k before (document_id r)
                          + (contrib k 1 pre (document_id r)
                             + contrib k (int (length pre) + 2) post (document_id r))
                          + rrf_formula k after (document_id r)"
  proof
    fix r assume "r \<in> set out"
    then have "(document_id r, score r) \<in> set items" using s by blast
    then have "document_id r \<noteq> []" "score r = rrf_formula k ?ls (document_id r)"
      using d by fastforce+
    then show "document_id r \<noteq> []
                \<and> score r = rrf_formula k before (document_id r)
                          + (contrib k 1 pre (document_id r)
                             + contrib k (int (length pre) + 2) post (document_id r))
                          + rrf_formula k after (document_id r)"
      using f by simp
  qed
  have "set (map document_id out) = set (map fst items)"
    by (simp add: out_ids(1)[OF b] sorted_docs_def)
  then have "set (map document_id out) = set (concat (map ids_of ?ls))"
    by (simp only: c set_first_appearance)
  then have 2: "set (map document_id out)
              = set (concat (map ids_of before)) \<union> set (ids_of pre) \<union> set (ids_of post)
                \<union> set (concat (map ids_of after))"
    using ids_of_missing[OF assms(2), of pre post] by (simp add: Un_assoc)
  from a 1 2 show ?thesis by (intro exI[of _ out] conjI)
qed

text \<open>
  The theorem at \<open>k = 60\<close> and the single list \<open>[h, doc1]\<close> with \<open>h\<close> lacking an id:
  \<open>doc1\<close> is scored at rank 2.
\<close>

theorem rrf_skipped_hit_keeps_rank_witness:
  "(0::int) < 60
   \<and> (h_document_id \<lparr>h_document_id = None, h_content = Some ''lost'', h_metadata = None, h_score = 1\<rparr> = None
       \<or> h_document_id \<lparr>h_document_id = None, h_content = Some ''lost'', h_metadata = None, h_score = 1\<rparr> = Some [])
   \<and> (\<exists>out. reciprocal_rank_fusion
              [[\<lparr>h_document_id = None, h_content = Some ''lost'', h_metadata = None, h_score = 1\<rparr>,
                hit_of ''doc1'' ''content1'' 1]] 60 = Inr out
          \<and> (\<forall>r\<in>set out. document_id r = ''doc1'' \<and> score r = 1 / 62)
          \<and> set (map document_id out) = {''doc1''})"
proof -
  let ?h = "\<lparr>h_document_id = None, h_content = Some ''lost'', h_metadata = None, h_score = 1\<rparr> :: hit"
  have h1: "(0::int) < 60" by simp
  have h2: "h_document_id ?h = None \<or> h_document_id ?h = Some []" by simp
  from rrf_skipped_hit_keeps_rank[OF h1 h2, of "[]" "[]" "[hit_of ''doc1'' ''content1'' 1]" "[]"]
  obtain out where
    a: "reciprocal_rank_fusion [[?h, hit_of ''doc1'' ''content1'' 1]] 60 = Inr out"
    and b: "\<forall>r\<in>set out. document_id r \<noteq> []
              \<and> score r = rrf_formula 60 [] (document_id r)
                  + (contrib 60 1 [] (document_id r)
                     + contrib 60 (int (length ([]::hit list)) + 2) [hit_of ''doc1'' ''content1'' 1] (document_id r))
                  + rrf_formula 60 [] (document_id r)"
    and c: "set (map document_id out)
             = set (concat (map ids_of [])) \<union> set (ids_of []) \<union> set (ids_of [hit_of ''doc1'' ''content1'' 1])
               \<union> set (concat (map ids_of []))"
    by auto
  have c': "set (map document_id out) = {''doc1''}"
    using c by (simp add: ids_of_Cons present_id_def hit_of_def)
  have "\<forall>r\<in>set out. document_id r = ''doc1'' \<and> score r = 1 / 62"
  proof
    fix r assume r: "r \<in> set out"
    then have "document_id r \<in> set (map document_id out)" by simp
    then have d: "document_id r = ''doc1''" by (simp only: c') simp
    from b r have "score r = rrf_formula 60 [] (document_id r)
                  + (contrib 60 1 [] (document_id r)
                     + contrib 60 (int (length ([]::hit list)) + 2) [hit_of ''doc1'' ''content1'' 1] (document_id r))
                  + rrf_formula 60 [] (document_id r)" by blast
    then have "score r = 1 / 62" by (simp add: d rrf_formula_def hit_of_def)
    with d show "document_id r = ''doc1'' \<and> score r = 1 / 62" by simp
  qed
  with a c' h1 h2 show ?thesis by (intro conjI exI[of _ out])
qed

section \<open>Properties of the sparse vectoriser\<close>

text \<open>
  The message \<open>abc\<close> of the RFC 1321 test suite: its digest
  \<open>900150983cd24fb0d6963f7d28e17f72\<close>, as four little-endian words.
\<close>

lemma md5_abc:
  "md5 (utf8_encode ''abc'') = (0x98500190, 0xB04FD23C, 0x7D3F96D6, 0x727FE128)"
  by code_simp

lemma count_word_keys:
  "map fst (count_word acc w) = (if w \<in> set (map fst acc) then map fst acc else map fst acc @ [w])"
  by (simp add: count_word_def AList.update_keys)

lemma count_word_get:
  "dict_get (count_word acc w) w' 0 = dict_get acc w' 0 + (if w' = w then 1 else 0)"
  by (simp add: count_word_def dict_get_def AList.update_conv')

lemma count_words_keys:
  "map fst (count_words acc ws) =
     map fst acc @ filter (\<lambda>w. w \<notin> set (map fst acc)) (first_appearance ws)"
proof (induction ws arbitrary: acc)
  case Nil then show ?case by (simp add: count_words_def)
next
  case (Cons w ws)
  have "count_words acc (w # ws) = count_words (count_word acc w) ws" by (simp add: count_words_def)
  then show ?case using Cons.IH[of "count_word acc w"]
    by (auto simp: count_word_keys filter_filter intro!: filter_cong)
qed

lemma count_words_get:
  "dict_get (count_words acc ws) w 0 = dict_get acc w 0 + count_list ws w"
proof (induction ws arbitrary: acc)
  case Nil then show ?case by (simp add: count_words_def)
next
  case (Cons x xs)
  have "count_words acc (x # xs) = count_words (count_word acc x) xs" by (simp add: count_words_def)
  then show ?case using Cons.IH[of "count_word acc x"]
    by (auto simp: count_word_get)
qed

lemma dict_get_Nil: "dict_get [] k d = d"
  by (simp add: dict_get_def)

lemma dict_get_Cons: "dict_get ((k, v) # xs) k' d = (if k' = k then v else dict_get xs k' d)"
  by (simp add: dict_get_def)

lemma alist_by_keys:
  "distinct (map fst (al :: ('k \<times> nat) list)) \<Longrightarrow> al = map (\<lambda>k. (k, dict_get al k 0)) (map fst al)"
proof (induction al)
  case Nil then show ?case by simp
next
  case (Cons x xs)
  obtain k v where x: "x = (k, v)" by (cases x)
  have k: "k \<notin> set (map fst xs)" and dist: "distinct (map fst xs)" using Cons.prems by (auto simp: x)
  have "map (\<lambda>k'. (k', dict_get (x # xs) k' 0)) (map fst xs) = map (\<lambda>k'. (k', dict_get xs k' 0)) (map fst xs)"
    using k by (intro map_cong refl) (auto simp: dict_get_Cons x)
  also have "\<dots> = xs" using Cons.IH[OF dist] by simp
  finally have "map (\<lambda>k'. (k', dict_get (x # xs) k' 0)) (map fst xs) = xs" .
  then have "map (\<lambda>k'. (k', dict_get (x # xs) k' 0)) (map fst (x # xs)) = x # xs"
    by (simp add: x dict_get_Cons)
  then show ?case by simp
qed

lemma count_words_shape:
  "count_words [] ws = map (\<lambda>w. (w, count_list ws w)) (first_appearance ws)"
proof -
  have keys: "map fst (count_words [] ws) = first_appearance ws"
    using count_words_keys[of "[]" ws] by simp
  then have "distinct (map fst (count_words [] ws))" by simp
  from alist_by_keys[OF this] have step: "count_words [] ws
      = map (\<lambda>k. (k, dict_get (count_words [] ws) k 0)) (first_appearance ws)"
    by (simp only: keys)
  have "map (\<lambda>k. (k, dict_get (count_words [] ws) k 0)) (first_appearance ws)
        = map (\<lambda>w. (w, count_list ws w)) (first_appearance ws)"
    by (simp add: count_words_get dict_get_Nil)
  with step show ?thesis by (rule trans)
qed

lemma sparse_vector_shape:
  "create_sparse_vector self text =
     \<lparr>sv_indices = map bucket_index (first_appearance (py_split (py_lower text))),
      sv_values = map (\<lambda>w. of_nat (count_list (py_split (py_lower text)) w))
                    (first_appearance (py_split (py_lower text)))\<rparr>"
  by (simp add: create_sparse_vector_def count_words_shape comp_def Let_def)

lemma bucket_index_range: "0 \<le> bucket_index w \<and> bucket_index w < 10000"
  by (simp add: bucket_index_def)

text \<open>
  What the vectoriser returns: one entry per distinct token, in the order of first
  occurrence, with the token's bucket and its frequency; nothing merges entries.
\<close>

lemma sparse_vector_entries:
  "create_sparse_vector self text =
     \<lparr>sv_indices = map bucket_index (first_appearance (py_split (py_lower text))),
      sv_values = map (\<lambda>w. of_nat (count_list (py_split (py_lower text)) w))
                    (first_appearance (py_split (py_lower text)))\<rparr>
   \<and> list_all (\<lambda>i. 0 \<le> i \<and> i < 10000) (sv_indices (create_sparse_vector self text))
   \<and> create_sparse_vector self [] = \<lparr>sv_indices = [], sv_values = []\<rparr>"
proof (intro conjI)
  show "create_sparse_vector self text =
     \<lparr>sv_indices = map bucket_index (first_appearance (py_split (py_lower text))),
      sv_values = map (\<lambda>w. of_nat (count_list (py_split (py_lower text)) w))
                    (first_appearance (py_split (py_lower text)))\<rparr>"
    by (rule sparse_vector_shape)
  show "list_all (\<lambda>i. 0 \<le> i \<and> i < 10000) (sv_indices (create_sparse_vector self text))"
    by (simp add: sparse_vector_shape list_all_iff bucket_index_range)
  show "create_sparse_vector self [] = \<lparr>sv_indices = [], sv_values = []\<rparr>"
    by (simp add: sparse_vector_shape py_lower_def py_split_def)
qed

text \<open>Two tokens of one bucket, by evaluation of MD5.\<close>

lemma bucket_year: "bucket_index ''year'' = 8444"
  by code_simp

lemma bucket_hour: "bucket_index ''hour'' = 8444"
  by code_simp

lemma tokens_year_hour: "py_split (py_lower ''year hour'') = [''year'', ''hour'']"
  by code_simp

text \<open>
  Claim C3.  The specification sums the frequencies of two tokens that share a bucket
  into one weight at that index.  The tokens \<open>year\<close> and \<open>hour\<close> share the bucket 8444
  (their MD5 digests start with \<open>84cdc76c\<close> and \<open>896c55cc\<close> in hexadecimal notation),
  and for the text \<open>year hour\<close> the vectoriser returns the index 8444 twice, each time with
  weight 1, where the specification has the index once with weight 2.
\<close>

theorem sparse_collision_keeps_two_entries:
  "''year'' \<noteq> ''hour''
   \<and> bucket_index ''year'' = bucket_index ''hour''
   \<and> create_sparse_vector \<lparr>client = [], collection_name = ''rag_documents''\<rparr> ''year hour''
       = \<lparr>sv_indices = [8444, 8444], sv_values = [1, 1]\<rparr>
   \<and> \<not> one_weight_per_index
         (create_sparse_vector \<lparr>client = [], collection_name = ''rag_documents''\<rparr> ''year hour'')"
  by (simp add: sparse_vector_shape tokens_year_hour bucket_year bucket_hour one_weight_per_index_def)

section \<open>Properties of the searches\<close>

lemma tenant_filter_matches: "filter_matches (tenant_filter t) p = (p_tenant_id p = t)"
  by (simp add: filter_matches_def tenant_filter_def condition_holds_def payload_get_def)

lemma from_hits_init: "from_hits H rrf_init"
  by (simp add: from_hits_def rrf_init_def)

lemma from_hits_accumulate:
  assumes "from_hits H st" and "h \<in> H" and "h_document_id h = Some d"
  shows "from_hits H (accumulate d s h st)"
  unfolding from_hits_def
proof (intro allI impI)
  fix d' e
  assume a: "map_of (doc_data (accumulate d s h st)) d' = Some e"
  show "\<exists>h\<in>H. entry_of h e"
  proof (cases "map_of (doc_scores st) d")
    case (Some s0)
    then have "map_of (doc_data st) d' = Some e" using a by (simp add: accumulate_def)
    then show ?thesis using assms(1) by (auto simp: from_hits_def)
  next
    case None
    show ?thesis
    proof (cases "d' = d")
      case True
      then have "entry_of h e" using a None assms(3)
        by (auto simp: accumulate_def AList.update_conv' entry_of_def)
      then show ?thesis using assms(2) by blast
    next
      case False
      then have "map_of (doc_data st) d' = Some e" using a None
        by (simp add: accumulate_def AList.update_conv')
      then show ?thesis using assms(1) by (auto simp: from_hits_def)
    qed
  qed
qed

lemma fuse_list_from_hits:
  "fuse_list k rank results st = Inr st' \<Longrightarrow> from_hits H st \<Longrightarrow> set results \<subseteq> H \<Longrightarrow> from_hits H st'"
proof (induction results arbitrary: rank st)
  case Nil then show ?case by simp
next
  case (Cons h hs)
  then show ?case
    by (auto split: option.splits if_splits intro: from_hits_accumulate)
qed

lemma fuse_lists_from_hits:
  "fuse_lists k ls st = Inr st' \<Longrightarrow> from_hits H st \<Longrightarrow> set (concat ls) \<subseteq> H \<Longrightarrow> from_hits H st'"
proof (induction ls arbitrary: st)
  case Nil then show ?case by simp
next
  case (Cons r rs)
  then obtain st1 where s1: "fuse_list k 1 r st = Inr st1" and s2: "fuse_lists k rs st1 = Inr st'"
    by (auto split: sum.splits)
  have "from_hits H st1" using fuse_list_from_hits[OF s1 Cons.prems(2)] Cons.prems(3) by simp
  then show ?case using Cons.IH[OF s2] Cons.prems(3) by simp
qed

lemma build_results_from:
  "build_results dd items = Inr out \<Longrightarrow> r \<in> set out \<Longrightarrow>
   \<exists>d e. map_of dd d = Some e \<and> document_id r = d_document_id e
         \<and> content r = d_content e \<and> metadata r = d_metadata e"
proof (induction items arbitrary: out)
  case Nil then show ?case by simp
next
  case (Cons x xs)
  obtain d s where x: "x = (d, s)" by (cases x)
  from Cons.prems(1) obtain e rest where e: "map_of dd d = Some e"
    and rest: "build_results dd xs = Inr rest"
    and out: "out = \<lparr>document_id = d_document_id e, content = d_content e,
                     metadata = d_metadata e, score = s\<rparr> # rest"
    by (auto simp: x split: option.splits sum.splits)
  show ?case
  proof (cases "r \<in> set rest")
    case True
    from Cons.IH[OF rest True] show ?thesis .
  next
    case False
    then have "r = \<lparr>document_id = d_document_id e, content = d_content e,
                     metadata = d_metadata e, score = s\<rparr>" using Cons.prems(2) out by simp
    then show ?thesis using e by auto
  qed
qed

lemma rrf_provenance:
  assumes "reciprocal_rank_fusion ls k = Inr out" and "r \<in> set out"
  shows "\<exists>h\<in>set (concat ls). h_document_id h = Some (document_id r)
           \<and> content r = (case h_content h of None \<Rightarrow> [] | Some c \<Rightarrow> c)
           \<and> metadata r = (case h_metadata h of None \<Rightarrow> JObj [] | Some m \<Rightarrow> m)"
proof -
  from assms(1) obtain st :: rrf_state where st: "fuse_lists k ls rrf_init = Inr st"
    and b: "build_results (doc_data st) (sorted_docs (doc_scores st)) = Inr out"
    by (auto simp: reciprocal_rank_fusion_def split: sum.splits)
  have "from_hits (set (concat ls)) st"
    by (rule fuse_lists_from_hits[OF st from_hits_init]) simp
  moreover from build_results_from[OF b assms(2)] obtain d e where
    "map_of (doc_data st) d = Some e" "document_id r = d_document_id e"
    "content r = d_content e" "metadata r = d_metadata e" by blast
  ultimately show ?thesis by (fastforce simp: from_hits_def entry_of_def)
qed

lemma client_search_sound:
  "ps \<in> set (client_search sim points qv flt limit) \<Longrightarrow> fst ps \<in> set points \<and> filter_matches flt (fst ps)"
  by (auto simp: client_search_def dest!: in_set_takeD)

lemma search_dense_sound:
  "h \<in> set (search_dense sim self t qvec n) \<Longrightarrow>
   \<exists>p\<in>set (client self). p_tenant_id p = t \<and> h_document_id h = Some (p_document_id p)
      \<and> h_content h = Some (p_content p) \<and> h_metadata h = Some (p_metadata p)"
  by (auto simp: search_dense_def to_hit_def tenant_filter_matches dest!: client_search_sound)

lemma search_sparse_sound:
  "h \<in> set (search_sparse sim self t query n) \<Longrightarrow>
   \<exists>p\<in>set (client self). p_tenant_id p = t \<and> h_document_id h = Some (p_document_id p)
      \<and> h_content h = Some (p_content p) \<and> h_metadata h = Some (p_metadata p)"
  by (auto simp: search_sparse_def Let_def to_hit_def tenant_filter_matches dest!: client_search_sound)

lemma hybrid_search_inr:
  assumes "hybrid_search w cfg self t query top_k = Inr results"
  shows "\<exists>merged. reciprocal_rank_fusion
            [search_dense (similarity w) self t (encode w query) (top_k * 2),
             search_sparse (similarity w) self t query (top_k * 2)] (rrf_k cfg) = Inr merged
          \<and> results = take top_k merged"
  using assms
  by (auto simp: hybrid_search_def wait_for_gather_def await_coroutine_def Let_def
           split: if_splits sum.splits)

lemma hybrid_search_sound:
  assumes "hybrid_search w cfg self t query top_k = Inr results" and "r \<in> set results"
  shows "\<exists>p\<in>set (client self). p_tenant_id p = t \<and> p_document_id p = document_id r
           \<and> p_content p = content r \<and> p_metadata p = metadata r"
proof -
  let ?d = "search_dense (similarity w) self t (encode w query) (top_k * 2)"
  let ?s = "search_sparse (similarity w) self t query (top_k * 2)"
  from hybrid_search_inr[OF assms(1)] obtain merged where
    m: "reciprocal_rank_fusion [?d, ?s] (rrf_k cfg) = Inr merged" and t: "results = take top_k merged"
    by blast
  have "r \<in> set merged" using assms(2) t by (auto dest: in_set_takeD)
  from rrf_provenance[OF m this] obtain h where
    h: "h \<in> set ?d \<or> h \<in> set ?s" "h_document_id h = Some (document_id r)"
       "content r = (case h_content h of None \<Rightarrow> [] | Some c \<Rightarrow> c)"
       "metadata r = (case h_metadata h of None \<Rightarrow> JObj [] | Some m \<Rightarrow> m)"
    by auto
  from h(1) obtain p where "p \<in> set (client self)" "p_tenant_id p = t"
    "h_document_id h = Some (p_document_id p)" "h_content h = Some (p_content p)"
    "h_metadata h = Some (p_metadata p)"
    using search_dense_sound search_sparse_sound by blast
  then show ?thesis using h(2,3,4) by (intro bexI[of _ p]) auto
qed

lemma insert_other_tenant:
  assumes "a \<noteq> b" and "point_id \<notin> set (map p_id (client self))"
  shows "filter (filter_matches (tenant_filter b))
           (client (insert_document self point_id a doc_id text meta vec))
         = filter (filter_matches (tenant_filter b)) (client self)"
  using assms
  by (simp add: insert_document_def Let_def client_upsert_def tenant_filter_matches)

lemma sparse_vector_self: "create_sparse_vector self1 text = create_sparse_vector self2 text"
  by (simp add: create_sparse_vector_def)

lemma hybrid_search_cong:
  assumes "filter (filter_matches (tenant_filter t)) (client self1)
           = filter (filter_matches (tenant_filter t)) (client self2)"
  shows "hybrid_search w cfg self1 t query top_k = hybrid_search w cfg self2 t query top_k"
proof -
  have d: "\<And>qvec n. search_dense (similarity w) self1 t qvec n = search_dense (similarity w) self2 t qvec n"
    by (simp add: search_dense_def client_search_def assms)
  have s: "\<And>n. search_sparse (similarity w) self1 t query n = search_sparse (similarity w) self2 t query n"
    by (simp add: search_sparse_def client_search_def assms Let_def sparse_vector_self[of self1 _ self2])
  show ?thesis by (simp add: hybrid_search_def d s)
qed

text \<open>
  Claim C7.  Every dense and every sparse search carries the caller's tenant id as a
  \<open>must\<close> condition, so every hit comes from a point of that tenant.  Ingesting a
  document under tenant \<open>a\<close> (as a new point) leaves every hybrid search of another
  tenant \<open>b\<close> exactly as it was, and every element of a result of \<open>b\<close> carries the id,
  content and metadata of one of \<open>b\<close>'s own points.  The store is taken to honour the
  filter it is given.
\<close>

theorem tenant_isolation:
  assumes "a \<noteq> b" and "point_id \<notin> set (map p_id (client self))"
  shows "hybrid_search w cfg (insert_document self point_id a doc_id text meta vec) b query top_k
           = hybrid_search w cfg self b query top_k
       \<and> (\<forall>results. hybrid_search w cfg (insert_document self point_id a doc_id text meta vec) b query top_k
                      = Inr results
            \<longrightarrow> (\<forall>r\<in>set results. \<exists>p\<in>set (client self). p_tenant_id p = b
                    \<and> p_document_id p = document_id r \<and> p_content p = content r
                    \<and> p_metadata p = metadata r))
       \<and> (\<forall>h\<in>set (search_dense (similarity w) (insert_document self point_id a doc_id text meta vec)
                      b qvec n).
            \<exists>p\<in>set (client self). p_tenant_id p = b \<and> h_document_id h = Some (p_document_id p))
       \<and> (\<forall>h\<in>set (search_sparse (similarity w) (insert_document self point_id a doc_id text meta vec)
                      b query n).
            \<exists>p\<in>set (client self). p_tenant_id p = b \<and> h_document_id h = Some (p_document_id p))"
proof -
  let ?self' = "insert_document self point_id a doc_id text meta vec"
  note same = insert_other_tenant[OF assms, of doc_id "text" meta vec]
  have eq: "hybrid_search w cfg ?self' b query top_k = hybrid_search w cfg self b query top_k"
    by (rule hybrid_search_cong[OF same])
  have prov: "\<forall>results. hybrid_search w cfg ?self' b query top_k = Inr results
            \<longrightarrow> (\<forall>r\<in>set results. \<exists>p\<in>set (client self). p_tenant_id p = b
                    \<and> p_document_id p = document_id r \<and> p_content p = content r
                    \<and> p_metadata p = metadata r)"
    using hybrid_search_sound[of w cfg self b query top_k] by (simp add: eq)
  have d: "search_dense (similarity w) ?self' b qvec n = search_dense (similarity w) self b qvec n"
    by (simp add: search_dense_def client_search_def same)
  have s: "search_sparse (similarity w) ?self' b query n = search_sparse (similarity w) self b query n"
    by (simp add: search_sparse_def client_search_def same Let_def sparse_vector_self[of ?self' _ self])
  have dense: "\<forall>h\<in>set (search_dense (similarity w) ?self' b qvec n).
            \<exists>p\<in>set (client self). p_tenant_id p = b \<and> h_document_id h = Some (p_document_id p)"
    unfolding d using search_dense_sound[of _ "similarity w" self b qvec n] by blast
  have sparse: "\<forall>h\<in>set (search_sparse (similarity w) ?self' b query n).
            \<exists>p\<in>set (client self). p_tenant_id p = b \<and> h_document_id h = Some (p_document_id p)"
    unfolding s using search_sparse_sound[of _ "similarity w" self b query n] by blast
  from eq prov dense sparse show ?thesis by (intro conjI)
qed

lemma example_search:
  "hybrid_search fast_world example_settings example_service ''tenant_b'' query 10
     = Inr [example_result]"
  by (simp add: hybrid_search_def wait_for_gather_def Let_def search_dense_def search_sparse_def
        client_search_def tenant_filter_matches to_hit_def reciprocal_rank_fusion_def rrf_init_def
        accumulate_def sorted_docs_def fast_world_def example_settings_def example_service_def
        example_result_def)

text \<open>
  The theorem on the example store: after a document of \<open>tenant_a\<close> about the same
  subject is ingested, \<open>tenant_b\<close> still gets its own document only.
\<close>

theorem tenant_isolation_witness:
  "''tenant_a'' \<noteq> ''tenant_b'' \<and> 2 \<notin> set (map p_id (client example_service))
   \<and> hybrid_search fast_world example_settings
        (insert_document example_service 2 ''tenant_a'' ''doc_a1''
           ''Secret information for tenant A.'' (JObj []) [1])
        ''tenant_b'' ''secret information'' 10
      = Inr [example_result]"
proof -
  have h1: "''tenant_a'' \<noteq> ''tenant_b''" by simp
  have h2: "2 \<notin> set (map p_id (client example_service))" by (simp add: example_service_def)
  have "hybrid_search fast_world example_settings
        (insert_document example_service 2 ''tenant_a'' ''doc_a1''
           ''Secret information for tenant A.'' (JObj []) [1])
        ''tenant_b'' ''secret information'' 10
      = hybrid_search fast_world example_settings example_service ''tenant_b'' ''secret information'' 10"
    by (rule conjunct1[OF tenant_isolation[OF h1 h2]])
  then show ?thesis using h1 h2 by (simp only: example_search) simp
qed

lemma hybrid_search_deadline:
  "search_timeout cfg < sparse_seconds w \<Longrightarrow>
   hybrid_search w cfg qdrant tenant_id query top_k
     = Inl (RuntimeError ''cannot reuse already awaited coroutine'')"
  by (simp add: hybrid_search_def wait_for_gather_def await_coroutine_def Let_def)

text \<open>
  Claim C1.  When the deadline elapses before the sparse search returns, the handler of
  \<open>asyncio.TimeoutError\<close> awaits \<open>dense_task\<close>, the coroutine object that
  \<open>asyncio.gather\<close> has already driven, and the call ends in \<open>RuntimeError\<close> whether or
  not the dense search had completed: there are no dense-only results.
\<close>

theorem hybrid_search_degraded_mode_raises:
  assumes "dense_seconds w \<le> search_timeout cfg" and "search_timeout cfg < sparse_seconds w"
  shows "hybrid_search w cfg qdrant tenant_id query top_k
           = Inl (RuntimeError ''cannot reuse already awaited coroutine'')"
  using assms(2) by (rule hybrid_search_deadline)

text \<open>The theorem with the dense search done after 0.1 s, the sparse search after 2 s, the deadline at 0.8 s.\<close>

theorem hybrid_search_degraded_mode_raises_witness:
  "dense_seconds slow_sparse_world \<le> search_timeout example_settings
   \<and> search_timeout example_settings < sparse_seconds slow_sparse_world
   \<and> hybrid_search slow_sparse_world example_settings example_service ''tenant_b'' ''secret'' 5
       = Inl (RuntimeError ''cannot reuse already awaited coroutine'')"
proof -
  have h1: "dense_seconds slow_sparse_world \<le> search_timeout example_settings"
    by (simp add: slow_sparse_world_def example_settings_def)
  have h2: "search_timeout example_settings < sparse_seconds slow_sparse_world"
    by (simp add: slow_sparse_world_def example_settings_def)
  from hybrid_search_degraded_mode_raises[OF h1 h2] h1 h2 show ?thesis by simp
qed

section \<open>Properties of the tenant-scoped delete\<close>

lemma sorted_drop_ge:
  assumes "sorted (map f xs)" and "n < length xs" and "x \<in> set (drop n xs)"
  shows "f (xs ! n) \<le> f x"
proof -
  from assms(3) obtain j where j: "j < length (drop n xs)" "x = drop n xs ! j"
    by (auto simp: in_set_conv_nth)
  then have x: "x = xs ! (n + j)" and lt: "n + j < length xs" by auto
  have "map f xs ! n \<le> map f xs ! (n + j)"
    using assms(1) lt by (intro sorted_nth_mono) auto
  then show ?thesis using x lt assms(2) by simp
qed

lemma scroll_page:
  assumes "\<forall>p\<in>set points. filter_matches flt p \<longrightarrow> (case offset of None \<Rightarrow> True | Some off \<Rightarrow> off \<le> p_id p)"
  shows "client_scroll points flt limit offset =
           (take limit (sort_key p_id (filter (filter_matches flt) points)),
            if limit < length (sort_key p_id (filter (filter_matches flt) points))
            then Some (p_id (sort_key p_id (filter (filter_matches flt) points) ! limit)) else None)"
proof -
  have "filter (\<lambda>p. filter_matches flt p \<and> (case offset of None \<Rightarrow> True | Some off \<Rightarrow> off \<le> p_id p)) points
        = filter (filter_matches flt) points"
    using assms by (intro filter_cong) auto
  then show ?thesis by (simp add: client_scroll_def Let_def)
qed

lemma delete_shrinks:
  assumes "r \<in> set points" and "p_id r \<in> set point_ids"
  shows "length (client_delete points point_ids) < length points"
  unfolding client_delete_def using assms by (intro length_filter_less[of r]) auto

lemma delete_loop_clears:
  "(\<forall>p\<in>set points. filter_matches flt p \<longrightarrow> (case offset of None \<Rightarrow> True | Some off \<Rightarrow> off \<le> p_id p))
   \<Longrightarrow> delete_loop points flt offset c = (points', n)
   \<Longrightarrow> filter (filter_matches flt) points' = [] \<and> c \<le> n"
proof (induction "length points" arbitrary: points offset c rule: less_induct)
  case less
  let ?ms = "sort_key p_id (filter (filter_matches flt) points)"
  note page = scroll_page[OF less.prems(1), of 100]
  show ?case
  proof (cases "take 100 ?ms = []")
    case True
    then have "?ms = []" by simp
    then have none: "filter (filter_matches flt) points = []"
      by (metis length_0_conv length_sort)
    have "delete_loop points flt offset c = (points, c)"
      by (subst delete_loop.simps) (simp add: page True Let_def)
    then show ?thesis using less.prems(2) none by simp
  next
    case False
    let ?ids = "map p_id (take 100 ?ms)"
    let ?points' = "client_delete points ?ids"
    have kept: "\<And>p. p \<in> set ?points' \<Longrightarrow> filter_matches flt p \<Longrightarrow> p \<in> set (drop 100 ?ms)"
    proof -
      fix p assume p: "p \<in> set ?points'" "filter_matches flt p"
      then have "p \<in> set ?ms" by (simp add: client_delete_def)
      then have "p \<in> set (take 100 ?ms) \<or> p \<in> set (drop 100 ?ms)"
        by (metis append_take_drop_id set_append Un_iff)
      moreover have "p \<notin> set (take 100 ?ms)" using p(1) by (auto simp: client_delete_def)
      ultimately show "p \<in> set (drop 100 ?ms)" by simp
    qed
    show ?thesis
    proof (cases "100 < length ?ms")
      case short: False
      then have "drop 100 ?ms = []" by simp
      then have none: "filter (filter_matches flt) ?points' = []"
        using kept by (auto simp: filter_empty_conv)
      have "delete_loop points flt offset c = (?points', c + int (length ?ids))"
        using False short by (subst delete_loop.simps) (simp add: page Let_def)
      then show ?thesis using less.prems(2) none by auto
    next
      case long: True
      let ?next = "Some (p_id (?ms ! 100))"
      have step: "delete_loop points flt offset c
                  = delete_loop ?points' flt ?next (c + int (length ?ids))"
        using False long by (subst delete_loop.simps) (simp add: page Let_def)
      from False obtain r where r: "r \<in> set (take 100 ?ms)" by (cases "take 100 ?ms") auto
      then have "r \<in> set points" by (auto dest: in_set_takeD)
      with r have smaller: "length ?points' < length points"
        by (intro delete_shrinks[of r]) auto
      have inv: "\<forall>p\<in>set ?points'. filter_matches flt p \<longrightarrow>
                   (case ?next of None \<Rightarrow> True | Some off \<Rightarrow> off \<le> p_id p)"
      proof (intro ballI impI)
        fix p assume "p \<in> set ?points'" "filter_matches flt p"
        then have "p \<in> set (drop 100 ?ms)" by (rule kept)
        with long have "p_id (?ms ! 100) \<le> p_id p"
          by (intro sorted_drop_ge) simp_all
        then show "case ?next of None \<Rightarrow> True | Some off \<Rightarrow> off \<le> p_id p" by simp
      qed
      from less.prems(2) step have "delete_loop ?points' flt ?next (c + int (length ?ids)) = (points', n)"
        by simp
      from less.hyps[OF smaller inv this] show ?thesis by auto
    qed
  qed
qed

lemma delete_loop_nothing:
  "filter (filter_matches flt) points = [] \<Longrightarrow> delete_loop points flt None c = (points, c)"
proof -
  assume none: "filter (filter_matches flt) points = []"
  then have "\<forall>p\<in>set points. filter_matches flt p \<longrightarrow> (case (None :: nat option) of None \<Rightarrow> True | Some off \<Rightarrow> off \<le> p_id p)"
    by simp
  from scroll_page[OF this, of 100] none show ?thesis
    by (subst delete_loop.simps) (simp add: Let_def)
qed

text \<open>
  Claim C9.  \<open>delete_by_tenant\<close> returns a count that is not negative and leaves no
  point of the tenant behind; called again at once it deletes nothing, returns 0 and
  leaves the store as it is.  The model has no failing store, so neither call raises.
\<close>

theorem delete_by_tenant_idempotent:
  "(case delete_by_tenant self tenant_id of
      (self1, n1) \<Rightarrow>
        (case delete_by_tenant self1 tenant_id of
           (self2, n2) \<Rightarrow>
             0 \<le> n1 \<and> n2 = 0 \<and> self2 = self1
             \<and> filter (\<lambda>p. p_tenant_id p = tenant_id) (client self1) = []))"
proof -
  obtain points1 n1 where run1: "delete_loop (client self) (tenant_filter tenant_id) None 0 = (points1, n1)"
    by (cases "delete_loop (client self) (tenant_filter tenant_id) None 0")
  have "\<forall>p\<in>set (client self). filter_matches (tenant_filter tenant_id) p \<longrightarrow>
          (case (None :: nat option) of None \<Rightarrow> True | Some off \<Rightarrow> off \<le> p_id p)" by simp
  from delete_loop_clears[OF this run1]
  have clear: "filter (filter_matches (tenant_filter tenant_id)) points1 = []" and n1: "0 \<le> n1"
    by simp_all
  have run2: "delete_loop points1 (tenant_filter tenant_id) None 0 = (points1, 0)"
    by (rule delete_loop_nothing[OF clear])
  have "filter (\<lambda>p. p_tenant_id p = tenant_id) points1 = []"
    using clear by (simp add: tenant_filter_matches[abs_def])
  then show ?thesis using run1 run2 n1 by (simp add: delete_by_tenant_def)
qed

section \<open>Properties of the summarisation stage\<close>











end
